theory Spec2Isabelle
  imports Main "HOL-Library.Sublist"
begin

section \<open>fqfilter: filtering FASTQ streams by read name\<close>

text \<open>
  A shallow embedding of \<^verbatim>\<open>fqfilter.go\<close>.  Strings are byte lists.  An input source is
  the list of lines that its \<^verbatim>\<open>bufio.Scanner\<close> delivers before \<^verbatim>\<open>Scan\<close> returns false;
  everything written is kept as a list of output events in the order of the calls.  The
  counters are Go \<^verbatim>\<open>int\<close>s (64 bit); they count lines read, so they are modelled as
  natural numbers.
\<close>

subsection \<open>Arguments, errors, output events\<close>

record Args =
  Invert :: bool
  ReadsFilename :: string
  OutPrefix :: string
  Limit :: int
  Tab :: bool
  ShortName :: bool

text \<open>Every \<^verbatim>\<open>log.Fatal\<close>, every error returned by the loop, and the one run-time panic.\<close>

datatype error =
    MustProvideReads
  | NoFastqFile
  | FailedToOpen string
  | TabularOnlyStdout
  | FailedToOpenForWriting string
  | ShouldBeHeader nat string
  | FailedToWrite nat nat
  | ExpectingScanner nat
  | IndexOutOfRange

datatype event =
    WriteString nat string
  | Println string

subsection \<open>Library functions\<close>

text \<open>
  \<^verbatim>\<open>utf8.DecodeRuneInString\<close>, which is also what \<^verbatim>\<open>range\<close> over a string does: the code
  point at the head of a byte string and the number of its bytes.  A byte that starts no
  well-formed encoding is the code point \<^verbatim>\<open>RuneError\<close> of one byte.  The second byte of an
  encoding has its own range after the lead bytes E0, ED, F0 and F4.
\<close>

definition RuneError :: nat where
  "RuneError = 0xFFFD"

definition DecodeRune :: "string \<Rightarrow> nat \<times> nat" where
  "DecodeRune s =
     (case map of_char s of
        [] \<Rightarrow> (RuneError, 0)
      | b0 # bs \<Rightarrow>
          if b0 < 0x80 then (b0, 1)
          else if b0 < 0xC2 \<or> 0xF4 < b0 then (RuneError, 1)
          else if b0 < 0xE0 then
            (case bs of
               b1 # _ \<Rightarrow>
                 if 0x80 \<le> b1 \<and> b1 \<le> 0xBF then ((b0 mod 0x20) * 0x40 + b1 mod 0x40, 2)
                 else (RuneError, 1)
             | _ \<Rightarrow> (RuneError, 1))
          else if b0 < 0xF0 then
            (case bs of
               b1 # b2 # _ \<Rightarrow>
                 if (if b0 = 0xE0 then 0xA0 else 0x80) \<le> b1 \<and>
                    b1 \<le> (if b0 = 0xED then 0x9F else 0xBF) \<and> 0x80 \<le> b2 \<and> b2 \<le> 0xBF
                 then ((b0 mod 0x10) * 0x1000 + (b1 mod 0x40) * 0x40 + b2 mod 0x40, 3)
                 else (RuneError, 1)
             | _ \<Rightarrow> (RuneError, 1))
          else
            (case bs of
               b1 # b2 # b3 # _ \<Rightarrow>
                 if (if b0 = 0xF0 then 0x90 else 0x80) \<le> b1 \<and>
                    b1 \<le> (if b0 = 0xF4 then 0x8F else 0xBF) \<and> 0x80 \<le> b2 \<and> b2 \<le> 0xBF \<and>
                    0x80 \<le> b3 \<and> b3 \<le> 0xBF
                 then ((b0 mod 0x08) * 0x40000 + (b1 mod 0x40) * 0x1000 + (b2 mod 0x40) * 0x40
                         + b3 mod 0x40, 4)
                 else (RuneError, 1)
             | _ \<Rightarrow> (RuneError, 1)))"

text \<open>\<^verbatim>\<open>unicode.IsSpace\<close>: the Latin-1 cases, and beyond them the table \<^verbatim>\<open>White_Space\<close>.\<close>

definition IsSpace :: "nat \<Rightarrow> bool" where
  "IsSpace r =
     (if r \<le> 0xFF then r \<in> {0x09, 0x0A, 0x0B, 0x0C, 0x0D, 0x20, 0x85, 0xA0}
      else r = 0x1680 \<or> (0x2000 \<le> r \<and> r \<le> 0x200A) \<or> r = 0x2028 \<or> r = 0x2029 \<or>
           r = 0x202F \<or> r = 0x205F \<or> r = 0x3000)"

lemma DecodeRune_size: "s \<noteq> [] \<Longrightarrow> 0 < snd (DecodeRune s)"
  by (cases s) (auto simp: DecodeRune_def split: list.splits)

text \<open>
  \<^verbatim>\<open>strings.FieldsFunc\<close>: the maximal runs of code points that \<open>f\<close> rejects, as byte
  strings; \<open>cur\<close> is the run that is open.
\<close>

function FieldsFunc :: "(nat \<Rightarrow> bool) \<Rightarrow> string \<Rightarrow> string \<Rightarrow> string list" where
  "FieldsFunc f cur s =
     (if s = [] then (if cur = [] then [] else [cur])
      else if f (fst (DecodeRune s))
           then (if cur = [] then FieldsFunc f [] (drop (snd (DecodeRune s)) s)
                 else cur # FieldsFunc f [] (drop (snd (DecodeRune s)) s))
           else FieldsFunc f (cur @ take (snd (DecodeRune s)) s) (drop (snd (DecodeRune s)) s))"
  by pat_completeness auto
termination
  by (relation "measure (\<lambda>(f, cur, s). length s)") (auto simp: DecodeRune_size)

declare FieldsFunc.simps [simp del]

text \<open>
  \<^verbatim>\<open>strings.Fields\<close> splits around runs of white space.  On a string with a byte from 0x80
  on it is \<^verbatim>\<open>FieldsFunc(s, unicode.IsSpace)\<close>; on a string of ASCII bytes Go takes a path of
  its own, with the six ASCII white space bytes, which gives the same fields.
\<close>

definition Fields :: "string \<Rightarrow> string list" where
  "Fields s = FieldsFunc IsSpace [] s"

definition HasPrefix :: "string \<Rightarrow> string \<Rightarrow> bool" where
  "HasPrefix s p = (take (length p) s = p)"

text \<open>
  Lines 206--208 and 240--242: \<^verbatim>\<open>if args.ShortName { name = strings.Fields(name)[0] }\<close>.
  Indexing an empty slice panics.
\<close>

definition short_name :: "Args \<Rightarrow> string \<Rightarrow> error + string" where
  "short_name a nm =
     (if ShortName a
      then (case Fields nm of [] \<Rightarrow> Inl IndexOutOfRange | w # ws \<Rightarrow> Inr w)
      else Inr nm)"

subsection \<open>The name index (lines 202--210)\<close>

type_synonym filter_map = "string \<rightharpoonup> bool"

fun read_filter :: "Args \<Rightarrow> string list \<Rightarrow> filter_map \<Rightarrow> error + filter_map" where
  "read_filter a [] flt = Inr flt"
| "read_filter a (l # ls) flt =
     (case short_name a l of
        Inl e \<Rightarrow> Inl e
      | Inr nm \<Rightarrow> read_filter a ls (flt(nm \<mapsto> True)))"

subsection \<open>The synchronised loop (lines 220--291)\<close>

record state =
  enable :: bool
  line_num :: nat
  included :: nat
  excluded :: nat
  name :: string
  sequences :: "string list"
  scanners :: "string list list"
  out :: "event list"

text \<open>What the closure does: it falls through to the next statement, or it returns.\<close>

datatype flow = Next state | Return "error option" state

text \<open>What the \<^verbatim>\<open>for\<close> loop does: it returns, or (with no scanner at all) it never ends.\<close>

datatype outcome = Exit "error option" state | Spin

text \<open>\<^verbatim>\<open>inputScanners[i].Scan()\<close> followed by \<^verbatim>\<open>Text()\<close>.\<close>

definition Scan :: "nat \<Rightarrow> state \<Rightarrow> (string \<times> state) option" where
  "Scan i s =
     (case scanners s ! i of
        [] \<Rightarrow> None
      | l # ls \<Rightarrow> Some (l, s\<lparr>scanners := (scanners s)[i := ls]\<rparr>))"

text \<open>Lines 236--251: the header check, and on stream 0 the decision.\<close>

definition header :: "Args \<Rightarrow> filter_map \<Rightarrow> nat \<Rightarrow> string \<Rightarrow> state \<Rightarrow> error + state" where
  "header a flt i line s =
     (if line_num s mod 4 = 0 then
        (if HasPrefix line ''@'' then
           (if i = 0 then
              (case short_name a (tl line) of
                 Inl e \<Rightarrow> Inl e
               | Inr nm \<Rightarrow>
                   (let en = (flt nm \<noteq> None)
                    in Inr (s\<lparr>name := nm, enable := (if Invert a then \<not> en else en)\<rparr>)))
            else Inr s)
         else Inl (ShouldBeHeader (line_num s) line))
      else Inr s)"

text \<open>Lines 252--261: the sequence buffer and the two counters.\<close>

definition count :: "nat \<Rightarrow> string \<Rightarrow> state \<Rightarrow> state" where
  "count i line s =
     (if line_num s mod 4 = 1 then
        (let s1 = s\<lparr>sequences := (sequences s)[i := line]\<rparr>
         in if i = 0 then
              (if enable s1 then s1\<lparr>included := included s1 + 1\<rparr>
               else s1\<lparr>excluded := excluded s1 + 1\<rparr>)
            else s1)
      else s)"

text \<open>Lines 265--268: the tabular line.\<close>

definition outputLine :: "state \<Rightarrow> string" where
  "outputLine s =
     foldl (\<lambda>l j. l @ [CHR 0x09] @ sequences s ! j) (name s) [0..<length (scanners s)]"

text \<open>
  Lines 262--276.  \<open>wok n i\<close> says whether the sink of stream \<open>i\<close> accepts the write of
  line \<open>n\<close>; the result of \<^verbatim>\<open>fmt.Println\<close> is not looked at.
\<close>

definition emit :: "Args \<Rightarrow> (nat \<Rightarrow> nat \<Rightarrow> bool) \<Rightarrow> nat \<Rightarrow> string \<Rightarrow> state \<Rightarrow> error + state" where
  "emit a wok i line s =
     (if enable s then
        (if Tab a then
           (if i + 1 = length (scanners s) \<and> line_num s mod 4 = 1
            then Inr (s\<lparr>out := out s @ [Println (outputLine s)]\<rparr>)
            else Inr s)
         else
           (if wok (line_num s) i
            then Inr (s\<lparr>out := out s @ [WriteString i (line @ [CHR 0x0A])]\<rparr>)
            else Inl (FailedToWrite (line_num s) i)))
      else Inr s)"

definition body :: "Args \<Rightarrow> filter_map \<Rightarrow> (nat \<Rightarrow> nat \<Rightarrow> bool) \<Rightarrow> nat \<Rightarrow> string \<Rightarrow> state \<Rightarrow> flow" where
  "body a flt wok i line s =
     (case header a flt i line s of
        Inl e \<Rightarrow> Return (Some e) s
      | Inr s1 \<Rightarrow>
          (let s2 = count i line s1
           in case emit a wok i line s2 of
                Inl e \<Rightarrow> Return (Some e) s2
              | Inr s3 \<Rightarrow> Next s3))"

text \<open>Lines 233--284: \<^verbatim>\<open>for i := 0; i < len(fq); i++\<close>, over the list of the indices.\<close>

fun inner :: "Args \<Rightarrow> filter_map \<Rightarrow> (nat \<Rightarrow> nat \<Rightarrow> bool) \<Rightarrow> nat list \<Rightarrow> state \<Rightarrow> flow" where
  "inner a flt wok [] s = Next s"
| "inner a flt wok (i # js) s =
     (case Scan i s of
        None \<Rightarrow> (if i = 0 then Return None s else Return (Some (ExpectingScanner i)) s)
      | Some (line, s1) \<Rightarrow>
          (case body a flt wok i line s1 of
             Next s2 \<Rightarrow> inner a flt wok js s2
           | Return e s2 \<Rightarrow> Return e s2))"

lemma header_scanners: "header a flt i line s = Inr s' \<Longrightarrow> scanners s' = scanners s"
  by (auto simp: header_def Let_def split: if_splits sum.splits)

lemma count_scanners: "scanners (count i line s) = scanners s"
  by (simp add: count_def Let_def)

lemma emit_scanners: "emit a wok i line s = Inr s' \<Longrightarrow> scanners s' = scanners s"
  by (auto simp: emit_def split: if_splits)

lemma body_scanners: "body a flt wok i line s = Next s' \<Longrightarrow> scanners s' = scanners s"
  by (auto simp: body_def Let_def count_scanners split: sum.splits
      dest!: header_scanners emit_scanners)

lemma Scan_scanners:
  "Scan i s = Some (l, s') \<Longrightarrow> scanners s ! i = l # (scanners s' ! i) \<or> length (scanners s) \<le> i"
  by (cases "i < length (scanners s)") (auto simp: Scan_def split: list.splits)

lemma Scan_scanners_eq:
  "Scan i s = Some (l, s') \<Longrightarrow> scanners s' = (scanners s)[i := tl (scanners s ! i)]"
  by (auto simp: Scan_def split: list.splits)

lemma inner_scanners:
  "inner a flt wok js s = Next s' \<Longrightarrow> k \<notin> set js \<Longrightarrow>
   length (scanners s') = length (scanners s) \<and> scanners s' ! k = scanners s ! k"
proof (induction js arbitrary: s)
  case Nil
  then show ?case by simp
next
  case (Cons i js)
  from Cons.prems(1) obtain l s1 s2 where
    sc: "Scan i s = Some (l, s1)" and bd: "body a flt wok i l s1 = Next s2"
    and rest: "inner a flt wok js s2 = Next s'"
    by (auto split: option.splits flow.splits if_splits)
  from Cons.prems(2) have ki: "k \<noteq> i" and kjs: "k \<notin> set js" by auto
  have "scanners s2 = (scanners s)[i := tl (scanners s ! i)]"
    using Scan_scanners_eq [OF sc] body_scanners [OF bd] by simp
  with Cons.IH [OF rest kjs] ki show ?case by simp
qed

lemma inner_consumes:
  assumes "inner a flt wok [0..<length (scanners s)] s = Next s'" and "scanners s \<noteq> []"
  shows "length (scanners s' ! 0) < length (scanners s ! 0)"
proof -
  from assms(2) have up: "[0..<length (scanners s)] = 0 # [1..<length (scanners s)]"
    by (simp add: upt_conv_Cons)
  from assms(1) obtain l s1 s2 where
    sc: "Scan 0 s = Some (l, s1)" and bd: "body a flt wok 0 l s1 = Next s2"
    and rest: "inner a flt wok [1..<length (scanners s)] s2 = Next s'"
    unfolding up by (auto split: option.splits flow.splits if_splits)
  have "scanners s ! 0 = l # scanners s1 ! 0"
    using Scan_scanners [OF sc] assms(2) by auto
  moreover have "scanners s2 = scanners s1"
    by (rule body_scanners [OF bd])
  moreover have "scanners s' ! 0 = scanners s2 ! 0"
    using inner_scanners [OF rest, of 0] by simp
  ultimately show ?thesis by simp
qed

text \<open>
  Lines 232--290.  Without a scanner the Go loop only increments \<^verbatim>\<open>line_num\<close>, and
  \<^verbatim>\<open>included\<close> stays where it is: it never returns (\<^verbatim>\<open>main\<close> exits before, line 150).
\<close>

function loop :: "Args \<Rightarrow> filter_map \<Rightarrow> (nat \<Rightarrow> nat \<Rightarrow> bool) \<Rightarrow> state \<Rightarrow> outcome" where
  "loop a flt wok s =
     (if scanners s = [] then Spin
      else
        (case inner a flt wok [0..<length (scanners s)] s of
           Return e s' \<Rightarrow> Exit e s'
         | Next s1 \<Rightarrow>
             (let s2 = s1\<lparr>line_num := line_num s1 + 1\<rparr>
              in if Limit a > 0 \<and> int (included s2) \<ge> Limit a then Exit None s2
                 else loop a flt wok s2)))"
  by pat_completeness auto
termination
proof (relation "measure (\<lambda>(a, flt, wok, s). length (scanners s ! 0))")
  show "wf (measure (\<lambda>(a, flt, wok, s). length (scanners s ! 0)))" by simp
next
  fix a :: Args and flt :: filter_map and wok :: "nat \<Rightarrow> nat \<Rightarrow> bool"
    and s s1 s2 :: state
  assume ne: "scanners s \<noteq> []"
    and nx: "inner a flt wok [0..<length (scanners s)] s = Next s1"
    and s2: "s2 = s1\<lparr>line_num := line_num s1 + 1\<rparr>"
  from inner_consumes [OF nx ne] s2
  show "((a, flt, wok, s2), (a, flt, wok, s)) \<in> measure (\<lambda>(a, flt, wok, s). length (scanners s ! 0))"
    by simp
qed

declare loop.simps [simp del]

text \<open>Lines 220--230: the variables before the loop, over the opened inputs.\<close>

definition init :: "Args \<Rightarrow> string list list \<Rightarrow> state" where
  "init a inputs =
     \<lparr>enable = (if Invert a then True else False), line_num = 0, included = 0, excluded = 0,
      name = [], sequences = replicate (length inputs) [], scanners = inputs, out = []\<rparr>"

definition run :: "Args \<Rightarrow> filter_map \<Rightarrow> (nat \<Rightarrow> nat \<Rightarrow> bool) \<Rightarrow> string list list \<Rightarrow> outcome" where
  "run a flt wok inputs = loop a flt wok (init a inputs)"

subsection \<open>Opening the files and running (lines 142--298)\<close>

text \<open>
  The environment: what \<^verbatim>\<open>os.Open\<close> followed by the scanner delivers for a file name
  (\<open>None\<close> when the file cannot be opened or, for a name ending in \<^verbatim>\<open>.gz\<close>, is no gzip
  file), the lines of the standard input, which files can be created, and which writes the
  sinks accept.
\<close>

record env =
  files :: "string \<Rightarrow> string list option"
  stdin :: "string list"
  creatable :: "string \<Rightarrow> bool"
  accepts :: "nat \<Rightarrow> nat \<Rightarrow> bool"

datatype action = OsOpen string | OsCreate string

text \<open>
  Lines 54--78 and 115--136.  A reader or writer is opened once, so the
  \<^verbatim>\<open>already open\<close> branch is never taken.
\<close>

definition AmbiReader_Open :: "env \<Rightarrow> string \<Rightarrow> action list \<times> string list option" where
  "AmbiReader_Open e fn = (if fn = [] then ([], Some (stdin e)) else ([OsOpen fn], files e fn))"

definition AmbiWriter_Open :: "env \<Rightarrow> string \<Rightarrow> action list \<times> bool" where
  "AmbiWriter_Open e fn = (if fn = [] then ([], True) else ([OsCreate fn], creatable e fn))"

text \<open>\<^verbatim>\<open>%d\<close> of \<^verbatim>\<open>fmt.Sprintf\<close> on a positive number.\<close>

function decimal :: "nat \<Rightarrow> string" where
  "decimal n = (if n < 10 then [char_of (48 + n)] else decimal (n div 10) @ [char_of (48 + n mod 10)])"
  by pat_completeness auto
termination
  by (relation "measure id") auto

declare decimal.simps [simp del]

text \<open>Lines 177--182.\<close>

definition output_name :: "Args \<Rightarrow> nat \<Rightarrow> nat \<Rightarrow> string" where
  "output_name a n i =
     (if n = 1 then OutPrefix a @ ''.fq.gz''
      else OutPrefix a @ ''_'' @ decimal (i + 1) @ ''.fq.gz'')"

text \<open>Lines 155--161.\<close>

fun open_inputs :: "env \<Rightarrow> string list \<Rightarrow> action list \<times> (error + string list list)" where
  "open_inputs e [] = ([], Inr [])"
| "open_inputs e (fn # fns) =
     (case AmbiReader_Open e fn of
        (t, None) \<Rightarrow> (t, Inl (FailedToOpen fn))
      | (t, Some ls) \<Rightarrow>
          (case open_inputs e fns of
             (t', Inl er) \<Rightarrow> (t @ t', Inl er)
           | (t', Inr lss) \<Rightarrow> (t @ t', Inr (ls # lss))))"

text \<open>Lines 172--188.\<close>

fun open_outputs :: "env \<Rightarrow> Args \<Rightarrow> nat \<Rightarrow> nat list \<Rightarrow> action list \<times> error option" where
  "open_outputs e a n [] = ([], None)"
| "open_outputs e a n (i # js) =
     (if OutPrefix a = [] then open_outputs e a n js
      else
        (case AmbiWriter_Open e (output_name a n i) of
           (t, False) \<Rightarrow> (t, Some (FailedToOpenForWriting (output_name a n i)))
         | (t, True) \<Rightarrow>
             (case open_outputs e a n js of (t', r) \<Rightarrow> (t @ t', r))))"

text \<open>Lines 163--189.\<close>

definition prepare_outputs :: "env \<Rightarrow> Args \<Rightarrow> nat \<Rightarrow> action list \<times> error option" where
  "prepare_outputs e a n =
     (if Tab a then
        (if OutPrefix a \<noteq> [] then ([], Some TabularOnlyStdout) else ([], None))
      else open_outputs e a n [0..<n])"

text \<open>Lines 193--196.\<close>

definition readsFn :: "Args \<Rightarrow> string" where
  "readsFn a = (if ReadsFilename a = ''stdin'' then [] else ReadsFilename a)"

text \<open>
  Every reader that was opened without a name is the one \<^verbatim>\<open>os.Stdin\<close>.  The name list is
  read to its end before the loop starts (lines 203--210), so it takes the whole standard
  input when it is read from there; otherwise the first input without a name takes it with
  its first \<^verbatim>\<open>Scan\<close>, the standard input taken as arriving in one piece.  A reader that comes
  later finds the end of the input.  \<open>taken\<close> says whether the standard input is used up.
\<close>

fun share_stdin :: "bool \<Rightarrow> (string \<times> string list) list \<Rightarrow> string list list" where
  "share_stdin taken [] = []"
| "share_stdin taken ((fn, ls) # rest) =
     (if fn = [] then (if taken then [] else ls) # share_stdin True rest
      else ls # share_stdin taken rest)"

datatype exit = Fatal error | Done nat nat | Forever

record result =
  opened :: "action list"
  written :: "event list"
  status :: exit

definition finish :: "action list \<Rightarrow> outcome \<Rightarrow> result" where
  "finish t r =
     (case r of
        Spin \<Rightarrow> \<lparr>opened = t, written = [], status = Forever\<rparr>
      | Exit None s \<Rightarrow> \<lparr>opened = t, written = out s, status = Done (included s) (excluded s)\<rparr>
      | Exit (Some er) s \<Rightarrow> \<lparr>opened = t, written = out s, status = Fatal er\<rparr>)"

definition main :: "env \<Rightarrow> Args \<Rightarrow> string list \<Rightarrow> result" where
  "main e a fq =
     (if ReadsFilename a = [] then \<lparr>opened = [], written = [], status = Fatal MustProvideReads\<rparr>
      else if length fq = 0 then \<lparr>opened = [], written = [], status = Fatal NoFastqFile\<rparr>
      else
        (case open_inputs e fq of
           (t1, Inl er) \<Rightarrow> \<lparr>opened = t1, written = [], status = Fatal er\<rparr>
         | (t1, Inr inputs) \<Rightarrow>
             (case prepare_outputs e a (length fq) of
                (t2, Some er) \<Rightarrow> \<lparr>opened = t1 @ t2, written = [], status = Fatal er\<rparr>
              | (t2, None) \<Rightarrow>
                  (case AmbiReader_Open e (readsFn a) of
                     (t3, None) \<Rightarrow>
                       \<lparr>opened = t1 @ t2 @ t3, written = [],
                        status = Fatal (FailedToOpen (ReadsFilename a))\<rparr>
                   | (t3, Some ls) \<Rightarrow>
                       (case read_filter a ls Map.empty of
                          Inl er \<Rightarrow> \<lparr>opened = t1 @ t2 @ t3, written = [], status = Fatal er\<rparr>
                        | Inr flt \<Rightarrow>
                            finish (t1 @ t2 @ t3)
                              (loop a flt (accepts e)
                                 (init a (share_stdin (ReadsFilename a = ''stdin'') (zip fq inputs)))))))))"

section \<open>Well-formed input and what a run should write\<close>

text \<open>
  A FASTQ record of one stream: the read name (the header line is the sentinel \<open>@\<close> followed
  by it), the sequence, the separator and the quality line.  A row is the record at one
  position of every stream, stream 0 first.
\<close>

record fastq =
  rname :: string
  rseq :: string
  rsep :: string
  rqual :: string

definition hdr :: "fastq \<Rightarrow> string" where
  "hdr r = CHR ''@'' # rname r"




text \<open>Every row has a record for each of the \<open>n\<close> streams, and in short-name mode the name
  of stream 0 has a first word.\<close>

definition well_formed :: "Args \<Rightarrow> nat \<Rightarrow> fastq list list \<Rightarrow> bool" where
  "well_formed a n rows =
     (0 < n \<and> (\<forall>row \<in> set rows. length row = n \<and> (ShortName a \<longrightarrow> Fields (rname (row ! 0)) \<noteq> [])))"

text \<open>A name as it is looked up: in short-name mode its first word.\<close>

definition reduced :: "Args \<Rightarrow> string \<Rightarrow> string" where
  "reduced a nm = (if ShortName a then hd (Fields nm) else nm)"

definition read_name :: "Args \<Rightarrow> fastq \<Rightarrow> string" where
  "read_name a r = reduced a (rname r)"

definition member :: "Args \<Rightarrow> filter_map \<Rightarrow> fastq list \<Rightarrow> bool" where
  "member a flt row = (read_name a (row ! 0) \<in> dom flt)"

definition selected :: "Args \<Rightarrow> filter_map \<Rightarrow> fastq list \<Rightarrow> bool" where
  "selected a flt row = (member a flt row \<noteq> Invert a)"

text \<open>One line of every stream, written to the stream's own sink.\<close>

definition writes :: "string list \<Rightarrow> nat \<Rightarrow> event list" where
  "writes c j = map (\<lambda>i. WriteString i (c ! i @ [CHR 0x0A])) [0..<j]"

definition tab_line :: "string \<Rightarrow> string list \<Rightarrow> string" where
  "tab_line nm c = nm @ concat (map ((#) (CHR 0x09)) c)"

definition columns :: "fastq list \<Rightarrow> string list list" where
  "columns row = [map hdr row, map rseq row, map rsep row, map rqual row]"

text \<open>What an included row gives: in tabular mode one line, otherwise its four lines on
  every stream.  The second is what has been written when its sequence lines are done.\<close>

definition record_output :: "Args \<Rightarrow> fastq list \<Rightarrow> event list" where
  "record_output a row =
     (if Tab a then [Println (tab_line (read_name a (row ! 0)) (map rseq row))]
      else concat (map (\<lambda>c. writes c (length row)) (columns row)))"








subsection \<open>The state inside one iteration\<close>


text \<open>What the line of stream 0 changes.\<close>

definition decide :: "Args \<Rightarrow> filter_map \<Rightarrow> string \<Rightarrow> state \<Rightarrow> state" where
  "decide a flt l s =
     (if line_num s mod 4 = 0 then
        s\<lparr>name := (if ShortName a then hd (Fields (tl l)) else tl l),
          enable := ((flt (if ShortName a then hd (Fields (tl l)) else tl l) \<noteq> None) \<noteq> Invert a)\<rparr>
      else if line_num s mod 4 = 1 then
        (if enable s then s\<lparr>included := included s + 1\<rparr> else s\<lparr>excluded := excluded s + 1\<rparr>)
      else s)"






subsection \<open>Invariants of the loop\<close>

text \<open>
  Stream 0 had \<open>N\<close> lines at the start; \<open>k\<close> is 1 when its line of the current iteration
  has been read and 0 before.
\<close>

definition counted :: "nat \<Rightarrow> nat \<Rightarrow> state \<Rightarrow> bool" where
  "counted N k s =
     (scanners s \<noteq> [] \<and> length (scanners s ! 0) + line_num s + k = N \<and>
      included s + excluded s = (line_num s + k + 2) div 4)"




text \<open>The lines of stream 0 that the run has taken from its scanner.\<close>

definition lines_read :: "string list list \<Rightarrow> state \<Rightarrow> nat" where
  "lines_read inputs s = length (inputs ! 0) - length (scanners s ! 0)"

section \<open>One iteration, one record\<close>


lemma decide_fields [simp]:
  "line_num (decide a flt l s) = line_num s"
  "scanners (decide a flt l s) = scanners s"
  "sequences (decide a flt l s) = sequences s"
  "out (decide a flt l s) = out s"
  by (simp_all add: decide_def)




lemma short_name_ok:
  "ShortName a \<longrightarrow> Fields nm \<noteq> [] \<Longrightarrow>
   short_name a nm = Inr (if ShortName a then hd (Fields nm) else nm)"
  by (cases "Fields nm") (auto simp: short_name_def)

lemma short_name_reduced:
  "ShortName a \<longrightarrow> Fields nm \<noteq> [] \<Longrightarrow> short_name a nm = Inr (reduced a nm)"
  by (simp add: short_name_ok reduced_def)







section \<open>A whole run on well-formed input\<close>














section \<open>Counting\<close>

lemma Scan_first:
  assumes "counted N 0 s" and "Scan 0 s = Some (l, s1)"
  shows "scanners s1 \<noteq> []" "length (scanners s1 ! 0) + line_num s1 + 1 = N"
    "included s1 + excluded s1 = (line_num s1 + 2) div 4"
  using assms by (auto simp: counted_def Scan_def split: list.splits)

lemma Scan_other:
  assumes "counted N 1 s" and "Scan j s = Some (l, s1)" and "0 < j"
  shows "counted N 1 s1"
  using assms by (auto simp: counted_def Scan_def split: list.splits)

lemma header_counted:
  assumes "header a flt i l s = Inr s'"
  shows "scanners s' = scanners s" "line_num s' = line_num s" "included s' = included s"
    "excluded s' = excluded s"
  using assms by (auto simp: header_def Let_def split: if_splits sum.splits)

lemma emit_counted:
  assumes "emit a wok i l s = Inr s'"
  shows "scanners s' = scanners s" "line_num s' = line_num s" "included s' = included s"
    "excluded s' = excluded s"
  using assms by (auto simp: emit_def split: if_splits)

lemma count_first:
  "scanners (count 0 l s) = scanners s" "line_num (count 0 l s) = line_num s"
  "included (count 0 l s) + excluded (count 0 l s) =
     included s + excluded s + (if line_num s mod 4 = 1 then 1 else 0)"
  by (simp_all add: count_def Let_def)

lemma count_other:
  "0 < j \<Longrightarrow> scanners (count j l s) = scanners s \<and> line_num (count j l s) = line_num s \<and>
     included (count j l s) = included s \<and> excluded (count j l s) = excluded s"
  by (simp add: count_def Let_def)

lemma quarter: "(p + 2) div 4 + (if p mod 4 = 1 then 1 else 0) = (p + 3) div (4::nat)"
  by (simp split: if_splits) presburger

lemma body_first_counted:
  assumes c: "counted N 0 s" and sc: "Scan 0 s = Some (l, s1)"
    and b: "body a flt wok 0 l s1 = Next s2 \<or> body a flt wok 0 l s1 = Return e s2"
  shows "counted N 1 s2"
proof (cases "header a flt 0 l s1")
  case (Inl er)
  then have z: "line_num s1 mod 4 = 0"
    by (auto simp: header_def split: if_splits)
  from Inl b have "s2 = s1" by (auto simp: body_def)
  moreover have "(line_num s1 + 2) div 4 = (line_num s1 + 3) div 4"
    using z by presburger
  ultimately show ?thesis
    using Scan_first [OF c sc] by (simp add: counted_def)
next
  case (Inr h)
  note hf = header_counted [OF Inr]
  let ?c = "count 0 l h"
  have cnt: "scanners ?c \<noteq> []" "length (scanners ?c ! 0) + line_num ?c + 1 = N"
    "included ?c + excluded ?c = (line_num ?c + 3) div 4"
    using Scan_first [OF c sc] hf quarter [of "line_num s1"] by (simp_all add: count_first)
  show ?thesis
  proof (cases "emit a wok 0 l ?c")
    case (Inl er)
    with Inr b have "s2 = ?c" by (auto simp: body_def Let_def)
    with cnt show ?thesis by (simp add: counted_def)
  next
    case e: (Inr s3)
    with Inr b have "s2 = s3" by (auto simp: body_def Let_def)
    with cnt emit_counted [OF e] show ?thesis by (simp add: counted_def)
  qed
qed

lemma body_other_counted:
  assumes c: "counted N 1 s1" and j: "0 < j"
    and b: "body a flt wok j l s1 = Next s2 \<or> body a flt wok j l s1 = Return e s2"
  shows "counted N 1 s2"
proof (cases "header a flt j l s1")
  case (Inl er)
  with b have "s2 = s1" by (auto simp: body_def)
  with c show ?thesis by simp
next
  case (Inr h)
  note hf = header_counted [OF Inr]
  let ?c = "count j l h"
  have cnt: "counted N 1 ?c"
    using c hf count_other [OF j, of l h] by (simp add: counted_def)
  show ?thesis
  proof (cases "emit a wok j l ?c")
    case (Inl er)
    with Inr b have "s2 = ?c" by (auto simp: body_def Let_def)
    with cnt show ?thesis by simp
  next
    case e: (Inr s3)
    with Inr b have "s2 = s3" by (auto simp: body_def Let_def)
    with cnt emit_counted [OF e] show ?thesis by (simp add: counted_def)
  qed
qed

lemma inner_other_counted:
  assumes "counted N 1 s" and "0 \<notin> set js"
    and "inner a flt wok js s = Next s' \<or> inner a flt wok js s = Return e s'"
  shows "counted N 1 s'"
  using assms
proof (induction js arbitrary: s)
  case Nil
  then show ?case by simp
next
  case (Cons j js)
  from Cons.prems(2) have j: "0 < j" and js: "0 \<notin> set js" by auto
  show ?case
  proof (cases "Scan j s")
    case None
    with Cons.prems(1,3) j show ?thesis by auto
  next
    case (Some p)
    obtain l s1 where p: "p = (l, s1)" by (cases p)
    note c1 = Scan_other [OF Cons.prems(1) Some [unfolded p] j]
    show ?thesis
    proof (cases "body a flt wok j l s1")
      case (Next s2)
      from body_other_counted [OF c1 j, of a flt wok l s2] Next have "counted N 1 s2" by simp
      from Cons.IH [OF this js] Cons.prems(3) Some p Next show ?thesis by simp
    next
      case (Return e2 s2)
      from body_other_counted [OF c1 j, of a flt wok l s2 e2] Return have "counted N 1 s2" by simp
      with Cons.prems(3) Some p Return show ?thesis by auto
    qed
  qed
qed

lemma inner_counted:
  assumes c: "counted N 0 s"
  shows "inner a flt wok [0..<length (scanners s)] s = Next s' \<Longrightarrow> counted N 1 s'"
    and "inner a flt wok [0..<length (scanners s)] s = Return e s' \<Longrightarrow>
         counted N 0 s' \<or> counted N 1 s'"
proof -
  from c have up: "[0..<length (scanners s)] = 0 # [Suc 0..<length (scanners s)]"
    by (simp add: counted_def upt_conv_Cons)
  have z: "0 \<notin> set [Suc 0..<length (scanners s)]" by simp
  {
    fix r assume r: "inner a flt wok [0..<length (scanners s)] s = r"
    have "case r of Next s' \<Rightarrow> counted N 1 s' | Return e s' \<Rightarrow> counted N 0 s' \<or> counted N 1 s'"
    proof (cases "Scan 0 s")
      case None
      with r up c show ?thesis by auto
    next
      case (Some p)
      obtain l s1 where p: "p = (l, s1)" by (cases p)
      show ?thesis
      proof (cases "body a flt wok 0 l s1")
        case (Next s2)
        from body_first_counted [OF c Some [unfolded p], of a flt wok s2] Next
        have c2: "counted N 1 s2" by simp
        from r up Some p Next have "inner a flt wok [Suc 0..<length (scanners s)] s2 = r" by simp
        with inner_other_counted [OF c2 z, of a flt wok] show ?thesis
          by (cases r) auto
      next
        case (Return e2 s2)
        from body_first_counted [OF c Some [unfolded p], of a flt wok s2 e2] Return
        have "counted N 1 s2" by simp
        with r up Some p Return show ?thesis by auto
      qed
    qed
  }
  note * = this
  show "inner a flt wok [0..<length (scanners s)] s = Next s' \<Longrightarrow> counted N 1 s'"
    using * [of "Next s'"] by simp
  show "inner a flt wok [0..<length (scanners s)] s = Return e s' \<Longrightarrow>
         counted N 0 s' \<or> counted N 1 s'"
    using * [of "Return e s'"] by simp
qed

lemma loop_counted:
  "counted N 0 s \<Longrightarrow> loop a flt wok s = Exit e s' \<Longrightarrow> counted N 0 s' \<or> counted N 1 s'"
proof (induction a flt wok s rule: loop.induct)
  case (1 a flt wok s)
  from "1.prems"(1) have ne: "scanners s \<noteq> []" by (simp add: counted_def)
  show ?case
  proof (cases "inner a flt wok [0..<length (scanners s)] s")
    case (Return e2 s2)
    with "1.prems"(2) ne have "e2 = e" "s2 = s'"
      by (simp_all add: loop.simps [of a flt wok s])
    with inner_counted(2) [OF "1.prems"(1), of a flt wok e2 s2] Return show ?thesis by simp
  next
    case (Next s1)
    let ?s2 = "s1\<lparr>line_num := line_num s1 + 1\<rparr>"
    from inner_counted(1) [OF "1.prems"(1) Next] have c2: "counted N 0 ?s2"
      by (simp add: counted_def)
    show ?thesis
    proof (cases "Limit a > 0 \<and> int (included ?s2) \<ge> Limit a")
      case True
      with "1.prems"(2) ne Next have "s' = ?s2"
        by (simp add: loop.simps [of a flt wok s] Let_def)
      with c2 show ?thesis by simp
    next
      case False
      with "1.prems"(2) ne Next have "loop a flt wok ?s2 = Exit e s'"
        by (auto simp: loop.simps [of a flt wok s] Let_def split: if_splits)
      from "1.IH" [OF ne Next refl _ c2 this] False show ?thesis by auto
    qed
  qed
qed

section \<open>Returning, and tabular mode on any input\<close>

lemma loop_returns:
  "scanners s \<noteq> [] \<Longrightarrow> \<exists>e s'. loop a flt wok s = Exit e s'"
proof (induction a flt wok s rule: loop.induct)
  case (1 a flt wok s)
  show ?case
  proof (cases "inner a flt wok [0..<length (scanners s)] s")
    case (Return e2 s2)
    with "1.prems" show ?thesis by (simp add: loop.simps [of a flt wok s])
  next
    case (Next s1)
    let ?s2 = "s1\<lparr>line_num := line_num s1 + 1\<rparr>"
    have "length (scanners s1) = length (scanners s)"
      using inner_scanners [OF Next, of "length (scanners s)"] by simp
    with "1.prems" have ne: "scanners ?s2 \<noteq> []" by auto
    show ?thesis
    proof (cases "Limit a > 0 \<and> int (included ?s2) \<ge> Limit a")
      case True
      with "1.prems" Next show ?thesis
        by (simp add: loop.simps [of a flt wok s] Let_def)
    next
      case False
      from "1.IH" [OF "1.prems" Next refl False ne] obtain e s' where
        "loop a flt wok ?s2 = Exit e s'" by blast
      with "1.prems" Next False show ?thesis
        by (auto simp: loop.simps [of a flt wok s] Let_def)
    qed
  qed
qed








section \<open>What is written stays, and sinks that reject a write\<close>













section \<open>Events and sinks\<close>

lemma inner_append:
  "inner a flt wok (xs @ ys) s =
     (case inner a flt wok xs s of Next s' \<Rightarrow> inner a flt wok ys s' | Return e s' \<Rightarrow> Return e s')"
  by (induction xs arbitrary: s) (auto split: option.splits flow.splits)






section \<open>The limit test (C1)\<close>

text \<open>
  C1 says that the limit is tested only when all four lines of a record are done.  The
  test of line 286 follows every line.  With one stream, the record \<open>r1\<close>, the name \<open>r1\<close>
  in the list and limit 1, the loop returns when \<open>line_num\<close> is 2: the header and the
  sequence line are written, the separator and the quality line are still in the scanner.
\<close>

theorem limit_stops_inside_record:
  "run \<lparr>Invert = False, ReadsFilename = ''names'', OutPrefix = [], Limit = 1, Tab = False,
        ShortName = False\<rparr>
     [''r1'' \<mapsto> True] (\<lambda>n i. True) [[''@r1'', ''ACGT'', ''+'', ''IIII'']]
   = Exit None
       \<lparr>enable = True, line_num = 2, included = 1, excluded = 0, name = ''r1'',
        sequences = [''ACGT''], scanners = [[''+'', ''IIII'']],
        out = [WriteString 0 (''@r1'' @ [CHR 0x0A]), WriteString 0 (''ACGT'' @ [CHR 0x0A])]\<rparr>"
  by code_simp

section \<open>Whole records (C2)\<close>





section \<open>Single stream, no inversion, no limit (C3)\<close>





section \<open>Desynchronised streams (C4)\<close>

text \<open>
  C4: in every iteration, when stream 0 has no line the loop returns without an error,
  whatever the other streams hold; when the streams before stream \<open>i > 0\<close> have given
  their lines of this iteration and stream \<open>i\<close> has none, the loop returns the error that
  names scanner \<open>i\<close>.
\<close>

theorem scan_failure:
  "(scanners s \<noteq> [] \<and> scanners s ! 0 = [] \<longrightarrow> loop a flt wok s = Exit None s) \<and>
   (0 < i \<and> i < length (scanners s) \<and> inner a flt wok [0..<i] s = Next si \<and>
    scanners s ! i = [] \<longrightarrow>
      loop a flt wok s = Exit (Some (ExpectingScanner i)) si)"
proof (intro conjI impI)
  assume h: "scanners s \<noteq> [] \<and> scanners s ! 0 = []"
  then have "[0..<length (scanners s)] = 0 # [Suc 0..<length (scanners s)]"
    by (simp add: upt_conv_Cons)
  moreover have "Scan 0 s = None"
    using h by (simp add: Scan_def)
  ultimately show "loop a flt wok s = Exit None s"
    using h by (simp add: loop.simps [of a flt wok s])
next
  assume h: "0 < i \<and> i < length (scanners s) \<and> inner a flt wok [0..<i] s = Next si \<and>
    scanners s ! i = []"
  then have nx: "inner a flt wok [0..<i] s = Next si" by simp
  have "scanners si ! i = scanners s ! i"
    using inner_scanners [OF nx, of i] by simp
  with h have "Scan i si = None"
    by (simp add: Scan_def)
  moreover have "[0..<length (scanners s)] = [0..<i] @ i # [Suc i..<length (scanners s)]"
    using h by (metis le_add_diff_inverse less_imp_le_nat upt_add_eq_append upt_conv_Cons zero_le
        add_diff_cancel_left' zero_less_diff)
  ultimately have "inner a flt wok [0..<length (scanners s)] s = Return (Some (ExpectingScanner i)) si"
    using h by (simp add: inner_append)
  moreover have "scanners s \<noteq> []" using h by auto
  ultimately show "loop a flt wok s = Exit (Some (ExpectingScanner i)) si"
    by (simp add: loop.simps [of a flt wok s])
qed

theorem scan_failure_witness:
  "loop \<lparr>Invert = False, ReadsFilename = ''names'', OutPrefix = [], Limit = 0, Tab = False,
      ShortName = False\<rparr> [''a'' \<mapsto> True] (\<lambda>n i. True)
     \<lparr>enable = False, line_num = 0, included = 0, excluded = 0, name = [],
      sequences = [[], []], scanners = [[], [''@a'']], out = []\<rparr>
   = Exit None
     \<lparr>enable = False, line_num = 0, included = 0, excluded = 0, name = [],
      sequences = [[], []], scanners = [[], [''@a'']], out = []\<rparr> \<and>
   loop \<lparr>Invert = False, ReadsFilename = ''names'', OutPrefix = [], Limit = 0, Tab = False,
      ShortName = False\<rparr> [''a'' \<mapsto> True] (\<lambda>n i. True)
     \<lparr>enable = False, line_num = 0, included = 0, excluded = 0, name = [],
      sequences = [[], []], scanners = [[''@a''], []], out = []\<rparr>
   = Exit (Some (ExpectingScanner 1))
     \<lparr>enable = True, line_num = 0, included = 0, excluded = 0, name = ''a'',
      sequences = [[], []], scanners = [[], []], out = [WriteString 0 (''@a'' @ [CHR 0x0A])]\<rparr>"
proof -
  let ?a = "\<lparr>Invert = False, ReadsFilename = ''names'', OutPrefix = [], Limit = 0, Tab = False,
      ShortName = False\<rparr>"
  let ?s = "\<lparr>enable = False, line_num = 0, included = 0, excluded = 0, name = [],
      sequences = [[], []], scanners = [[''@a''], []], out = []\<rparr>"
  let ?si = "\<lparr>enable = True, line_num = 0, included = 0, excluded = 0, name = ''a'',
      sequences = [[], []], scanners = [[], []], out = [WriteString 0 (''@a'' @ [CHR 0x0A])]\<rparr>"
  have "inner ?a [''a'' \<mapsto> True] (\<lambda>n i. True) [0..<1] ?s = Next ?si"
    by (simp add: Scan_def body_def header_def count_def emit_def HasPrefix_def short_name_def)
  then show ?thesis
    using scan_failure [where s = "\<lparr>enable = False, line_num = 0, included = 0, excluded = 0,
      name = [], sequences = [[], []], scanners = [[], [''@a'']], out = []\<rparr>" and a = ?a
      and flt = "[''a'' \<mapsto> True]" and wok = "\<lambda>n i. True"]
      scan_failure [where s = ?s and i = 1 and a = ?a and flt = "[''a'' \<mapsto> True]"
        and wok = "\<lambda>n i. True" and si = ?si]
    by simp
qed

section \<open>Tabular output (C5)\<close>





section \<open>The two counters (C6)\<close>

text \<open>
  C6 says that at the end \<open>included + excluded\<close> is the number of complete 4-line records
  read from stream 0.  A record is counted on its sequence line (line 252): when stream 0
  ends after the header and the sequence line of a record, the run returns without an
  error, two lines are read, no complete record, and the record is counted as excluded.
\<close>

theorem truncated_record_is_counted:
  "run \<lparr>Invert = False, ReadsFilename = ''names'', OutPrefix = [], Limit = 0, Tab = False,
        ShortName = False\<rparr> Map.empty (\<lambda>n i. True) [[''@a'', ''ACGT'']]
   = Exit None
       \<lparr>enable = False, line_num = 2, included = 0, excluded = 1, name = ''a'',
        sequences = [''ACGT''], scanners = [[]], out = []\<rparr> \<and>
   lines_read [[''@a'', ''ACGT'']]
       \<lparr>enable = False, line_num = 2, included = 0, excluded = 1, name = ''a'',
        sequences = [''ACGT''], scanners = [[]], out = []\<rparr> div 4 = 0"
  by code_simp

text \<open>
  C6 as amended: every run on at least one stream returns, and then
  \<open>included + excluded\<close> is the number of records whose sequence line has been read from
  stream 0, that is \<open>(L + 2) div 4\<close> for the \<open>L\<close> lines read from stream 0; when \<open>L\<close> is
  a multiple of four this is the number of complete records read.
\<close>

theorem counts_sequence_lines:
  assumes "inputs \<noteq> []"
  shows "\<exists>e s'. run a flt wok inputs = Exit e s' \<and>
     included s' + excluded s' = (lines_read inputs s' + 2) div 4 \<and>
     (lines_read inputs s' mod 4 = 0 \<longrightarrow> included s' + excluded s' = lines_read inputs s' div 4)"
proof -
  let ?N = "length (inputs ! 0)"
  have c0: "counted ?N 0 (init a inputs)"
    using assms by (simp add: counted_def init_def)
  have "scanners (init a inputs) \<noteq> []"
    using assms by (simp add: init_def)
  from loop_returns [OF this, of a flt wok] obtain e s' where
    r: "loop a flt wok (init a inputs) = Exit e s'" by blast
  from loop_counted [OF c0 r] obtain k where
    k: "counted ?N k s'" by blast
  then have l: "lines_read inputs s' = line_num s' + k"
    by (auto simp: counted_def lines_read_def)
  have sum: "included s' + excluded s' = (lines_read inputs s' + 2) div 4"
    using k by (simp add: l counted_def)
  moreover have "included s' + excluded s' = lines_read inputs s' div 4"
    if "lines_read inputs s' mod 4 = 0"
    using that unfolding sum by presburger
  ultimately show ?thesis
    using r by (auto simp: run_def)
qed

theorem counts_sequence_lines_witness:
  "\<exists>e s'. run \<lparr>Invert = False, ReadsFilename = ''names'', OutPrefix = [], Limit = 0, Tab = False,
        ShortName = False\<rparr> [''a'' \<mapsto> True] (\<lambda>n i. True)
        [[''@a'', ''AA'', ''+'', ''II'', ''@b'', ''CC'', ''+'', ''II'']] = Exit e s' \<and>
     lines_read [[''@a'', ''AA'', ''+'', ''II'', ''@b'', ''CC'', ''+'', ''II'']] s' = 8 \<and>
     included s' + excluded s' = 2"
proof -
  let ?a = "\<lparr>Invert = False, ReadsFilename = ''names'', OutPrefix = [], Limit = 0, Tab = False,
        ShortName = False\<rparr>"
  let ?in = "[[''@a'', ''AA'', ''+'', ''II'', ''@b'', ''CC'', ''+'', ''II'']]"
  have ne: "?in \<noteq> []" by simp
  from counts_sequence_lines [OF ne, of ?a "[''a'' \<mapsto> True]" "\<lambda>n i. True"] obtain e s' where
    r: "run ?a [''a'' \<mapsto> True] (\<lambda>n i. True) ?in = Exit e s'"
    and m: "lines_read ?in s' mod 4 = 0 \<longrightarrow> included s' + excluded s' = lines_read ?in s' div 4"
    by auto
  have "run ?a [''a'' \<mapsto> True] (\<lambda>n i. True) ?in = Exit None
      \<lparr>enable = False, line_num = 8, included = 1, excluded = 1, name = ''b'',
       sequences = [''CC''], scanners = [[]], out = [WriteString 0 (''@a'' @ [CHR 0x0A]),
         WriteString 0 (''AA'' @ [CHR 0x0A]), WriteString 0 (''+'' @ [CHR 0x0A]),
         WriteString 0 (''II'' @ [CHR 0x0A])]\<rparr>"
    by code_simp
  with r have "lines_read ?in s' = 8"
    by (auto simp: lines_read_def)
  with m r show ?thesis by auto
qed

section \<open>Inversion (C7)\<close>

lemma Invert_irrelevant [simp]:
  "well_formed (a\<lparr>Invert := b\<rparr>) n rows = well_formed a n rows"
  "member (a\<lparr>Invert := b\<rparr>) flt row = member a flt row"
  "record_output (a\<lparr>Invert := b\<rparr>) row = record_output a row"
  "selected (a\<lparr>Invert := b\<rparr>) flt row = (member a flt row \<noteq> b)"
  by (simp_all add: well_formed_def member_def record_output_def selected_def read_name_def
      reduced_def)





section \<open>Configuration errors (C8)\<close>

lemma open_inputs_ok:
  "\<forall>fn \<in> set fq. fn = [] \<or> files e fn \<noteq> None \<Longrightarrow>
   \<exists>inputs. open_inputs e fq = (map OsOpen (filter (\<lambda>fn. fn \<noteq> []) fq), Inr inputs)"
  by (induction fq) (auto simp: AmbiReader_Open_def)

lemma open_inputs_fail:
  "\<not> (\<forall>fn \<in> set fq. fn = [] \<or> files e fn \<noteq> None) \<Longrightarrow>
   \<exists>t fn. fn \<in> set fq \<and> open_inputs e fq = (t, Inl (FailedToOpen fn))"
proof (induction fq)
  case Nil
  then show ?case by simp
next
  case (Cons f fq)
  show ?case
  proof (cases "f = [] \<or> files e f \<noteq> None")
    case True
    with Cons.prems have "\<not> (\<forall>fn \<in> set fq. fn = [] \<or> files e fn \<noteq> None)" by auto
    from Cons.IH [OF this] obtain t fn where
      "fn \<in> set fq" "open_inputs e fq = (t, Inl (FailedToOpen fn))" by blast
    with True show ?thesis
      by (auto simp: AmbiReader_Open_def)
  next
    case False
    then show ?thesis by (auto simp: AmbiReader_Open_def)
  qed
qed

text \<open>
  C8 says that every configuration error is reported before any stream is opened.  The
  test for tabular output with an output prefix (line 165) comes after the inputs are
  opened (lines 155--161): with \<^verbatim>\<open>-tab -out x\<close> and one input file that can be opened,
  the file is opened and then the error is reported.
\<close>

theorem inputs_opened_before_flag_check:
  "main \<lparr>files = (\<lambda>fn. Some []), stdin = [], creatable = (\<lambda>fn. True), accepts = (\<lambda>n i. True)\<rparr>
     \<lparr>Invert = False, ReadsFilename = ''names'', OutPrefix = ''x'', Limit = 0, Tab = True,
      ShortName = False\<rparr>
     [''a.fq'']
   = \<lparr>opened = [OsOpen ''a.fq''], written = [], status = Fatal TabularOnlyStdout\<rparr>"
  by (simp add: main_def prepare_outputs_def AmbiReader_Open_def)

text \<open>
  C8 as amended: a missing reads list and an empty list of input files are reported
  before anything is opened.  Tabular output together with an output prefix is reported
  when every input has been opened (an input that cannot be opened is reported instead),
  and before any output file or the reads list is opened.
\<close>

theorem configuration_errors:
  "(ReadsFilename a = [] \<longrightarrow>
      main e a fq = \<lparr>opened = [], written = [], status = Fatal MustProvideReads\<rparr>) \<and>
   (ReadsFilename a \<noteq> [] \<and> fq = [] \<longrightarrow>
      main e a fq = \<lparr>opened = [], written = [], status = Fatal NoFastqFile\<rparr>) \<and>
   (ReadsFilename a \<noteq> [] \<and> fq \<noteq> [] \<and> Tab a \<and> OutPrefix a \<noteq> [] \<longrightarrow>
      (if \<forall>fn \<in> set fq. fn = [] \<or> files e fn \<noteq> None
       then main e a fq =
              \<lparr>opened = map OsOpen (filter (\<lambda>fn. fn \<noteq> []) fq), written = [],
               status = Fatal TabularOnlyStdout\<rparr>
       else \<exists>fn \<in> set fq. status (main e a fq) = Fatal (FailedToOpen fn)))"
proof (intro conjI impI)
  assume "ReadsFilename a = []"
  then show "main e a fq = \<lparr>opened = [], written = [], status = Fatal MustProvideReads\<rparr>"
    by (simp add: main_def)
next
  assume "ReadsFilename a \<noteq> [] \<and> fq = []"
  then show "main e a fq = \<lparr>opened = [], written = [], status = Fatal NoFastqFile\<rparr>"
    by (simp add: main_def)
next
  assume h: "ReadsFilename a \<noteq> [] \<and> fq \<noteq> [] \<and> Tab a \<and> OutPrefix a \<noteq> []"
  show "if \<forall>fn \<in> set fq. fn = [] \<or> files e fn \<noteq> None
       then main e a fq =
              \<lparr>opened = map OsOpen (filter (\<lambda>fn. fn \<noteq> []) fq), written = [],
               status = Fatal TabularOnlyStdout\<rparr>
       else \<exists>fn \<in> set fq. status (main e a fq) = Fatal (FailedToOpen fn)"
  proof (cases "\<forall>fn \<in> set fq. fn = [] \<or> files e fn \<noteq> None")
    case True
    from open_inputs_ok [OF True] obtain inputs where
      "open_inputs e fq = (map OsOpen (filter (\<lambda>fn. fn \<noteq> []) fq), Inr inputs)" ..
    with h True show ?thesis
      by (simp add: main_def prepare_outputs_def)
  next
    case False
    from open_inputs_fail [OF False] obtain t fn where
      "fn \<in> set fq" "open_inputs e fq = (t, Inl (FailedToOpen fn))" by blast
    with h False show ?thesis
      by (auto simp: main_def)
  qed
qed

theorem configuration_errors_witness:
  "main \<lparr>files = (\<lambda>fn. Some []), stdin = [], creatable = (\<lambda>fn. True), accepts = (\<lambda>n i. True)\<rparr>
     \<lparr>Invert = False, ReadsFilename = [], OutPrefix = [], Limit = 0, Tab = False, ShortName = False\<rparr>
     [''a.fq'']
   = \<lparr>opened = [], written = [], status = Fatal MustProvideReads\<rparr> \<and>
   main \<lparr>files = (\<lambda>fn. Some []), stdin = [], creatable = (\<lambda>fn. True), accepts = (\<lambda>n i. True)\<rparr>
     \<lparr>Invert = False, ReadsFilename = ''names'', OutPrefix = [], Limit = 0, Tab = False, ShortName = False\<rparr>
     []
   = \<lparr>opened = [], written = [], status = Fatal NoFastqFile\<rparr> \<and>
   main \<lparr>files = (\<lambda>fn. Some []), stdin = [], creatable = (\<lambda>fn. True), accepts = (\<lambda>n i. True)\<rparr>
     \<lparr>Invert = False, ReadsFilename = ''names'', OutPrefix = ''x'', Limit = 0, Tab = True, ShortName = False\<rparr>
     [''a.fq'', ''b.fq'']
   = \<lparr>opened = [OsOpen ''a.fq'', OsOpen ''b.fq''], written = [], status = Fatal TabularOnlyStdout\<rparr>"
  using
    configuration_errors [of
      "\<lparr>Invert = False, ReadsFilename = [], OutPrefix = [], Limit = 0, Tab = False, ShortName = False\<rparr>"
      "\<lparr>files = (\<lambda>fn. Some []), stdin = [], creatable = (\<lambda>fn. True), accepts = (\<lambda>n i. True)\<rparr>"
      "[''a.fq'']"]
    configuration_errors [of
      "\<lparr>Invert = False, ReadsFilename = ''names'', OutPrefix = [], Limit = 0, Tab = False, ShortName = False\<rparr>"
      "\<lparr>files = (\<lambda>fn. Some []), stdin = [], creatable = (\<lambda>fn. True), accepts = (\<lambda>n i. True)\<rparr>"
      "[]"]
    configuration_errors [of
      "\<lparr>Invert = False, ReadsFilename = ''names'', OutPrefix = ''x'', Limit = 0, Tab = True, ShortName = False\<rparr>"
      "\<lparr>files = (\<lambda>fn. Some []), stdin = [], creatable = (\<lambda>fn. True), accepts = (\<lambda>n i. True)\<rparr>"
      "[''a.fq'', ''b.fq'']"]
  by simp

section \<open>The name index (C9)\<close>

lemma read_filter_dom:
  "\<forall>l \<in> set ls. ShortName a \<longrightarrow> Fields l \<noteq> [] \<Longrightarrow>
   \<exists>flt'. read_filter a ls flt = Inr flt' \<and> dom flt' = dom flt \<union> reduced a ` set ls"
proof (induction ls arbitrary: flt)
  case Nil
  then show ?case by simp
next
  case (Cons l ls)
  have ok: "short_name a l = Inr (reduced a l)"
    using Cons.prems by (intro short_name_reduced) simp
  from Cons.prems have "\<forall>l \<in> set ls. ShortName a \<longrightarrow> Fields l \<noteq> []" by simp
  from Cons.IH [OF this, of "flt(reduced a l \<mapsto> True)"] obtain flt' where
    "read_filter a ls (flt(reduced a l \<mapsto> True)) = Inr flt'"
    "dom flt' = dom (flt(reduced a l \<mapsto> True)) \<union> reduced a ` set ls"
    by blast
  then show ?case
    by (simp add: ok)
qed

text \<open>
  C9 says that every name list gives the set of its names, each cut to its first word in
  short-name mode.  In short-name mode a line without a word (an empty line between two
  names) makes \<^verbatim>\<open>strings.Fields(name)[0]\<close> of line 207 index an empty slice: the program
  panics and there is no set.
\<close>

theorem blank_line_panics:
  "read_filter \<lparr>Invert = False, ReadsFilename = ''names'', OutPrefix = [], Limit = 0,
        Tab = False, ShortName = True\<rparr> [''r1'', [], ''r2''] Map.empty = Inl IndexOutOfRange"
  by (simp add: short_name_def Fields_def FieldsFunc.simps DecodeRune_def IsSpace_def)

section \<open>The source of the name list (C10)\<close>




end
